theory Spec2Isabelle
  imports Main
begin

section \<open>Text: characters, character classes and string primitives\<close>

text \<open>
  A Python \<open>str\<close> is a sequence of code points. The model reads a \<^typ>\<open>char\<close> as the
  code point of the same number, so a \<^typ>\<open>string\<close> is a Python string whose code
  points are all below 256. The classes of the \<open>re\<close> module (\<open>\s\<close>, \<open>\d\<close>, \<open>\w\<close> on
  \<open>str\<close> patterns) and of \<open>str.rstrip()\<close> are written out on that range.
\<close>

definition code :: "char \<Rightarrow> nat" where
  "code c = of_char c"

definition is_space :: "char \<Rightarrow> bool" where
  "is_space c = ((9 \<le> code c \<and> code c \<le> 13) \<or> (28 \<le> code c \<and> code c \<le> 32)
                 \<or> code c = 133 \<or> code c = 160)"

definition is_digit :: "char \<Rightarrow> bool" where
  "is_digit c = (48 \<le> code c \<and> code c \<le> 57)"

definition is_ascii_alnum :: "char \<Rightarrow> bool" where
  "is_ascii_alnum c = (is_digit c \<or> (65 \<le> code c \<and> code c \<le> 90) \<or> (97 \<le> code c \<and> code c \<le> 122))"

definition is_word :: "char \<Rightarrow> bool" where
  "is_word c = (is_ascii_alnum c \<or> code c = 95
                \<or> code c = 170 \<or> code c = 178 \<or> code c = 179 \<or> code c = 181
                \<or> code c = 185 \<or> code c = 186
                \<or> (188 \<le> code c \<and> code c \<le> 190)
                \<or> (192 \<le> code c \<and> code c \<le> 214)
                \<or> (216 \<le> code c \<and> code c \<le> 246)
                \<or> 248 \<le> code c)"

definition newline :: char where
  "newline = CHR 0x0A"

definition carriage_return :: char where
  "carriage_return = CHR 0x0D"

text \<open>\<open>s.startswith(p)\<close>.\<close>

definition startswith :: "string \<Rightarrow> string \<Rightarrow> bool" where
  "startswith s p = (take (length p) s = p)"

text \<open>\<open>p in s\<close> on strings: \<open>p\<close> occurs in \<open>s\<close> as a contiguous run.\<close>

fun str_contains :: "string \<Rightarrow> string \<Rightarrow> bool" where
  "str_contains [] p = (p = [])"
| "str_contains (c # cs) p = (startswith (c # cs) p \<or> str_contains cs p)"

text \<open>\<open>s.rstrip()\<close> with no argument: trailing white space is removed.\<close>

definition rstrip :: "string \<Rightarrow> string" where
  "rstrip s = rev (dropWhile is_space (rev s))"

text \<open>\<open>s.rstrip(chars)\<close>: trailing characters that occur in \<open>chars\<close> are removed.\<close>

definition rstrip_chars :: "string \<Rightarrow> string \<Rightarrow> string" where
  "rstrip_chars s chars = rev (dropWhile (\<lambda>c. c \<in> set chars) (rev s))"

section \<open>Feedback parser (scripts/feedback\_parser.py)\<close>

subsection \<open>The comment patterns\<close>

text \<open>
  The alternation \<open>(FEEDBACK|RESPONSE|RESOLVED)\<close> at the head of a string; the result is
  the text of group 1.
\<close>

definition keyword :: "string \<Rightarrow> string option" where
  "keyword s =
     (if startswith s ''FEEDBACK'' then Some ''FEEDBACK''
      else if startswith s ''RESPONSE'' then Some ''RESPONSE''
      else if startswith s ''RESOLVED'' then Some ''RESOLVED''
      else None)"

text \<open>
  \<open>^\s*OPEN\s*(FEEDBACK|RESPONSE|RESOLVED)\<close>, where \<open>OPEN\<close> is a comment opener that
  starts with no white space: the white space before the opener and before the keyword
  is skipped whole, since neither the opener nor a keyword can start inside it. The
  result is the keyword and the text that follows it.
\<close>

definition match_open :: "string \<Rightarrow> string \<Rightarrow> (string \<times> string) option" where
  "match_open opener line =
     (let s = dropWhile is_space line in
      if startswith s opener then
        (let t = dropWhile is_space (drop (length opener) s) in
         case keyword t of
           None \<Rightarrow> None
         | Some k \<Rightarrow> Some (k, drop (length k) t))
      else None)"

text \<open>
  \<open>.*?CLOSE\<close> after the keyword: \<open>.\<close> matches every character but the newline, so the
  closer has to occur before the first newline.
\<close>

definition match_close :: "string \<Rightarrow> string \<Rightarrow> bool" where
  "match_close closer rest = str_contains (takeWhile (\<lambda>c. c \<noteq> newline) rest) closer"

definition pattern_python :: "string \<Rightarrow> string option" where
  "pattern_python line = map_option fst (match_open ''#'' line)"

definition pattern_js :: "string \<Rightarrow> string option" where
  "pattern_js line = map_option fst (match_open ''//'' line)"

definition pattern_html :: "string \<Rightarrow> string option" where
  "pattern_html line =
     (case match_open ''<!--'' line of
        None \<Rightarrow> None
      | Some (k, rest) \<Rightarrow> if match_close ''-->'' rest then Some k else None)"

definition pattern_css :: "string \<Rightarrow> string option" where
  "pattern_css line =
     (case match_open ''/*'' line of
        None \<Rightarrow> None
      | Some (k, rest) \<Rightarrow> if match_close ''*/'' rest then Some k else None)"

definition PATTERNS :: "(string \<Rightarrow> string option) list" where
  "PATTERNS = [pattern_python, pattern_js, pattern_html, pattern_css]"

fun first_match :: "(string \<Rightarrow> string option) list \<Rightarrow> string \<Rightarrow> string option" where
  "first_match [] line = None"
| "first_match (p # ps) line =
     (case p line of Some k \<Rightarrow> Some k | None \<Rightarrow> first_match ps line)"

definition is_feedback_line :: "string \<Rightarrow> string option" where
  "is_feedback_line line = first_match PATTERNS line"

subsection \<open>Metadata\<close>

definition SEVERITIES :: "string list" where
  "SEVERITIES = [''CRITICAL'', ''MAJOR'', ''MINOR'', ''NIT'']"

text \<open>The loop over \<open>SEVERITIES\<close> with its \<open>break\<close>: the first label found wins.\<close>

fun find_severity :: "string list \<Rightarrow> string \<Rightarrow> string option" where
  "find_severity [] line = None"
| "find_severity (s # ss) line =
     (if str_contains line (''['' @ s @ '']'') then Some s else find_severity ss line)"

definition is_handle_char :: "char \<Rightarrow> bool" where
  "is_handle_char c = (is_word c \<or> c = CHR ''-'')"

text \<open>
  \<open>re.search(r'@([\w-]+)', line)\<close>: the leftmost \<open>@\<close> that is followed by a handle
  character; the group is the longest run of handle characters after it.
\<close>

fun search_reviewer :: "string \<Rightarrow> string option" where
  "search_reviewer [] = None"
| "search_reviewer (c # cs) =
     (if c = CHR ''@'' \<and> takeWhile is_handle_char cs \<noteq> []
      then Some (takeWhile is_handle_char cs)
      else search_reviewer cs)"

text \<open>\<open>\d{4}-\d{2}-\d{2}\<close> at the head of a string.\<close>

definition date_shape :: "string \<Rightarrow> bool" where
  "date_shape s =
     (length s = 10 \<and> list_all is_digit (take 4 s) \<and> s ! 4 = CHR ''-''
      \<and> list_all is_digit (take 2 (drop 5 s)) \<and> s ! 7 = CHR ''-''
      \<and> list_all is_digit (drop 8 s))"

text \<open>\<open>re.search(r'(\d{4}-\d{2}-\d{2})', line)\<close>: the leftmost place where the shape fits.\<close>

fun search_date :: "string \<Rightarrow> string option" where
  "search_date [] = None"
| "search_date (c # cs) =
     (if date_shape (take 10 (c # cs)) then Some (take 10 (c # cs)) else search_date cs)"

text \<open>
  The metadata dictionary. It is only read with \<open>.get\<close>, which gives \<open>None\<close> for a missing
  key and for a key bound to \<open>None\<close> alike, so a key bound to \<open>None\<close> is modelled as
  absent and \<open>{}\<close> is the empty map.
\<close>

type_synonym metadata_dict = "string \<rightharpoonup> string"

definition parse_metadata :: "string \<Rightarrow> metadata_dict" where
  "parse_metadata line =
     (\<lambda>key. if key = ''severity'' then find_severity SEVERITIES line
            else if key = ''reviewer'' then search_reviewer line
            else if key = ''date'' then search_date line
            else None)"

subsection \<open>Blocks and the scan of one file\<close>

record FeedbackBlock =
  file_path :: string
  line_start :: int
  line_end :: int
  feedback_lines :: "string list"
  severity :: "string option"
  reviewer :: "string option"
  date :: "string option"
  status :: string
  has_response :: bool
  has_resolved :: bool

text \<open>
  The local variables of \<open>parse_file\<close>. The two flags that share their names with
  fields of the block carry a prime.
\<close>

record scan_state =
  blocks :: "FeedbackBlock list"
  current_block :: "bool option"
  current_lines :: "string list"
  block_start :: "int option"
  has_feedback :: bool
  has_response' :: bool
  has_resolved' :: bool
  metadata :: metadata_dict

definition init_state :: scan_state where
  "init_state =
     \<lparr>blocks = [], current_block = None, current_lines = [], block_start = None,
      has_feedback = False, has_response' = False, has_resolved' = False,
      metadata = Map.empty\<rparr>"

definition derive_status :: "scan_state \<Rightarrow> string" where
  "derive_status st =
     (if has_resolved' st then ''resolved''
      else if has_response' st then ''responded''
      else ''open'')"

text \<open>
  The block built from the locals; the source writes this construction twice, once in
  the loop and once after it.
\<close>

definition make_block :: "string \<Rightarrow> int \<Rightarrow> scan_state \<Rightarrow> FeedbackBlock" where
  "make_block fp bs st =
     \<lparr>file_path = fp,
      line_start = bs,
      line_end = bs + int (length (current_lines st)) - 1,
      feedback_lines = current_lines st,
      severity = metadata st ''severity'',
      reviewer = metadata st ''reviewer'',
      date = metadata st ''date'',
      status = derive_status st,
      has_response = has_response' st,
      has_resolved = has_resolved' st\<rparr>"

text \<open>One iteration of the \<open>for\<close> loop, on line \<open>line_num\<close> with text \<open>line\<close>.\<close>

definition step :: "string \<Rightarrow> int \<Rightarrow> string \<Rightarrow> scan_state \<Rightarrow> scan_state" where
  "step fp line_num line st =
     (case is_feedback_line line of
        Some comment_type \<Rightarrow>
          (let st1 = (if current_block st = None
                      then st\<lparr>current_block := Some True, block_start := Some line_num,
                              has_feedback := False, has_response' := False,
                              has_resolved' := False, metadata := Map.empty\<rparr>
                      else st);
               st2 = st1\<lparr>current_lines := current_lines st1 @ [rstrip line]\<rparr>
           in if comment_type = ''FEEDBACK'' \<and> \<not> has_feedback st2
              then st2\<lparr>metadata := parse_metadata line, has_feedback := True\<rparr>
              else if comment_type = ''RESPONSE'' then st2\<lparr>has_response' := True\<rparr>
              else if comment_type = ''RESOLVED'' then st2\<lparr>has_resolved' := True\<rparr>
              else st2)
      | None \<Rightarrow>
          (case block_start st of
             Some bs \<Rightarrow>
               if current_lines st \<noteq> []
               then st\<lparr>blocks := blocks st @ [make_block fp bs st],
                       current_lines := [], current_block := None, block_start := None\<rparr>
               else st
           | None \<Rightarrow> st))"

text \<open>\<open>for line_num, line in enumerate(lines, start=1)\<close>, started at any number.\<close>

fun scan_loop :: "string \<Rightarrow> int \<Rightarrow> string list \<Rightarrow> scan_state \<Rightarrow> scan_state" where
  "scan_loop fp n [] st = st"
| "scan_loop fp n (line # rest) st = scan_loop fp (n + 1) rest (step fp n line st)"

text \<open>The block at the end of the file, and the returned list.\<close>

definition finish :: "string \<Rightarrow> scan_state \<Rightarrow> FeedbackBlock list" where
  "finish fp st =
     (case block_start st of
        Some bs \<Rightarrow>
          if current_lines st \<noteq> [] then blocks st @ [make_block fp bs st] else blocks st
      | None \<Rightarrow> blocks st)"

definition parse_lines :: "string \<Rightarrow> string list \<Rightarrow> FeedbackBlock list" where
  "parse_lines fp lines = finish fp (scan_loop fp 1 lines init_state)"

subsection \<open>Reading a file\<close>

text \<open>
  What \<open>open(..., encoding='utf-8')\<close> and \<open>readlines()\<close> give for a path: the decoded
  text, or one of the two exceptions that \<open>parse_file\<close> catches.
\<close>

datatype read_result = Text string | IOError | UnicodeDecodeError

text \<open>Universal newlines: \<open>\r\n\<close> and a lone \<open>\r\<close> are read as \<open>\n\<close>.\<close>

fun translate_newlines :: "string \<Rightarrow> string" where
  "translate_newlines [] = []"
| "translate_newlines [c] = [if c = carriage_return then newline else c]"
| "translate_newlines (c # d # cs) =
     (if c = carriage_return
      then (if d = newline then newline # translate_newlines cs
            else newline # translate_newlines (d # cs))
      else c # translate_newlines (d # cs))"

text \<open>\<open>readlines()\<close>: every line keeps its newline; the last line may have none.\<close>

fun split_lines :: "string \<Rightarrow> string \<Rightarrow> string list" where
  "split_lines acc [] = (if acc = [] then [] else [acc])"
| "split_lines acc (c # cs) =
     (if c = newline then (acc @ [c]) # split_lines [] cs else split_lines (acc @ [c]) cs)"

definition readlines :: "string \<Rightarrow> string list" where
  "readlines text = split_lines [] (translate_newlines text)"

definition parse_file :: "(string \<Rightarrow> read_result) \<Rightarrow> string \<Rightarrow> FeedbackBlock list" where
  "parse_file fs fp =
     (case fs fp of
        Text content \<Rightarrow> parse_lines fp (readlines content)
      | IOError \<Rightarrow> []
      | UnicodeDecodeError \<Rightarrow> [])"

text \<open>
  \<open>parse_repository\<close> on the list of files that \<open>find_files_with_feedback\<close> returned:
  the blocks of each file are appended to \<open>self.feedback_blocks\<close>, which starts empty.
\<close>

fun extend_all :: "(string \<Rightarrow> read_result) \<Rightarrow> string list \<Rightarrow> FeedbackBlock list \<Rightarrow> FeedbackBlock list" where
  "extend_all fs [] feedback_blocks = feedback_blocks"
| "extend_all fs (fp # files) feedback_blocks =
     extend_all fs files (feedback_blocks @ parse_file fs fp)"

definition parse_repository :: "(string \<Rightarrow> read_result) \<Rightarrow> string list \<Rightarrow> FeedbackBlock list" where
  "parse_repository fs files = extend_all fs files []"

subsection \<open>The scan, specified by runs of tagged lines\<close>

text \<open>
  A second description of the scan, in the words of the specification rather than of the
  loop: a line is tagged when a comment pattern matches it; a file splits into maximal
  runs of tagged lines; each run gives one block. The loop of the source is proved to
  compute exactly this.
\<close>

definition tagged :: "string \<Rightarrow> bool" where
  "tagged l = (is_feedback_line l \<noteq> None)"

definition carries :: "string \<Rightarrow> string \<Rightarrow> bool" where
  "carries k l = (is_feedback_line l = Some k)"

text \<open>The maximal runs of tagged lines, each with the number of its first line.\<close>

function tagged_runs :: "int \<Rightarrow> string list \<Rightarrow> (int \<times> string list) list" where
  "tagged_runs n [] = []"
| "tagged_runs n (l # ls) =
     (if tagged l
      then (n, l # takeWhile tagged ls)
           # tagged_runs (n + 1 + int (length (takeWhile tagged ls))) (dropWhile tagged ls)
      else tagged_runs (n + 1) ls)"
  by pat_completeness auto
termination
  by (relation "measure (\<lambda>(n, ls). length ls)") (auto simp: length_dropWhile_le less_Suc_eq_le)

text \<open>The metadata of a run: taken from the first line of the run that carries \<open>FEEDBACK\<close>.\<close>

definition run_metadata :: "string list \<Rightarrow> metadata_dict" where
  "run_metadata run =
     (case find (carries ''FEEDBACK'') run of
        None \<Rightarrow> Map.empty
      | Some l \<Rightarrow> parse_metadata l)"

definition run_status :: "string list \<Rightarrow> string" where
  "run_status run =
     (if \<exists>l \<in> set run. carries ''RESOLVED'' l then ''resolved''
      else if \<exists>l \<in> set run. carries ''RESPONSE'' l then ''responded''
      else ''open'')"

definition block_of_run :: "string \<Rightarrow> int \<times> string list \<Rightarrow> FeedbackBlock" where
  "block_of_run fp sr =
     \<lparr>file_path = fp,
      line_start = fst sr,
      line_end = fst sr + int (length (snd sr)) - 1,
      feedback_lines = map rstrip (snd sr),
      severity = run_metadata (snd sr) ''severity'',
      reviewer = run_metadata (snd sr) ''reviewer'',
      date = run_metadata (snd sr) ''date'',
      status = run_status (snd sr),
      has_response = (\<exists>l \<in> set (snd sr). carries ''RESPONSE'' l),
      has_resolved = (\<exists>l \<in> set (snd sr). carries ''RESOLVED'' l)\<rparr>"

text \<open>The two shapes of the loop's state: outside a block, and inside a run read so far.\<close>

definition idle :: "scan_state \<Rightarrow> bool" where
  "idle st = (current_block st = None \<and> block_start st = None \<and> current_lines st = [])"

definition in_run :: "scan_state \<Rightarrow> int \<Rightarrow> string list \<Rightarrow> bool" where
  "in_run st s run =
     (current_block st = Some True \<and> block_start st = Some s \<and> run \<noteq> []
      \<and> current_lines st = map rstrip run
      \<and> has_feedback st = (\<exists>l \<in> set run. carries ''FEEDBACK'' l)
      \<and> has_response' st = (\<exists>l \<in> set run. carries ''RESPONSE'' l)
      \<and> has_resolved' st = (\<exists>l \<in> set run. carries ''RESOLVED'' l)
      \<and> metadata st = run_metadata run)"

text \<open>The physical lines of a file that a block reports, from its two line numbers.\<close>

definition block_run :: "string list \<Rightarrow> FeedbackBlock \<Rightarrow> string list" where
  "block_run lines b =
     take (nat (line_end b - line_start b + 1)) (drop (nat (line_start b - 1)) lines)"

text \<open>A small file, and the block it holds, for evaluating the results below.\<close>

definition demo_lines :: "string list" where
  "demo_lines = [''x = 1'', ''# RESOLVED (@bob, 2025-11-25): done'',
                 ''# FEEDBACK [MAJOR] (@alice, 2025-11-23): fix'', ''# RESPONSE: ok'']"

definition demo_block :: FeedbackBlock where
  "demo_block =
     \<lparr>file_path = ''t.py'', line_start = 2, line_end = 4,
      feedback_lines = [''# RESOLVED (@bob, 2025-11-25): done'',
                        ''# FEEDBACK [MAJOR] (@alice, 2025-11-23): fix'', ''# RESPONSE: ok''],
      severity = Some ''MAJOR'', reviewer = Some ''alice'', date = Some ''2025-11-23'',
      status = ''resolved'', has_response = True, has_resolved = True\<rparr>"


section \<open>Properties of the feedback parser\<close>

subsection \<open>The loop computes the runs\<close>

lemma keyword_cases:
  "keyword s = Some k \<Longrightarrow> k = ''FEEDBACK'' \<or> k = ''RESPONSE'' \<or> k = ''RESOLVED''"
  by (auto simp: keyword_def split: if_splits)

lemma match_open_cases:
  "match_open opener l = Some (k, r) \<Longrightarrow> k = ''FEEDBACK'' \<or> k = ''RESPONSE'' \<or> k = ''RESOLVED''"
  by (auto simp: match_open_def Let_def split: if_splits option.splits dest: keyword_cases)

lemma is_feedback_line_cases:
  assumes "is_feedback_line l = Some k"
  shows "k = ''FEEDBACK'' \<or> k = ''RESPONSE'' \<or> k = ''RESOLVED''"
  using assms
  by (auto simp: is_feedback_line_def PATTERNS_def pattern_python_def pattern_js_def
      pattern_html_def pattern_css_def split: option.splits if_splits dest: match_open_cases)

lemma find_append_single:
  "find P (xs @ [x]) = (case find P xs of Some y \<Rightarrow> Some y | None \<Rightarrow> if P x then Some x else None)"
  by (induction xs) auto

lemma find_None_iff_set: "(find P xs = None) = (\<not> (\<exists>x \<in> set xs. P x))"
  by (induction xs) auto

lemma run_metadata_single:
  "run_metadata [l] = (if carries ''FEEDBACK'' l then parse_metadata l else Map.empty)"
  by (simp add: run_metadata_def)

lemma run_metadata_snoc:
  "run_metadata (run @ [l]) =
     (if \<exists>x \<in> set run. carries ''FEEDBACK'' x then run_metadata run
      else if carries ''FEEDBACK'' l then parse_metadata l else run_metadata run)"
  by (induction run) (simp_all add: run_metadata_def)

lemma carries_cases:
  assumes "is_feedback_line l = Some k"
  obtains (fb) "carries ''FEEDBACK'' l" "\<not> carries ''RESPONSE'' l" "\<not> carries ''RESOLVED'' l"
            "k = ''FEEDBACK''"
        | (rs) "\<not> carries ''FEEDBACK'' l" "carries ''RESPONSE'' l" "\<not> carries ''RESOLVED'' l"
            "k = ''RESPONSE''"
        | (rd) "\<not> carries ''FEEDBACK'' l" "\<not> carries ''RESPONSE'' l" "carries ''RESOLVED'' l"
            "k = ''RESOLVED''"
  using is_feedback_line_cases[OF assms] assms by (auto simp: carries_def)

lemma step_open:
  assumes "is_feedback_line l = Some k"
  shows "step fp n l st =
     (let st1 = (if current_block st = None
                 then st\<lparr>current_block := Some True, block_start := Some n,
                         has_feedback := False, has_response' := False,
                         has_resolved' := False, metadata := Map.empty\<rparr>
                 else st);
          st2 = st1\<lparr>current_lines := current_lines st1 @ [rstrip l]\<rparr>
      in if k = ''FEEDBACK'' \<and> \<not> has_feedback st2
         then st2\<lparr>metadata := parse_metadata l, has_feedback := True\<rparr>
         else if k = ''RESPONSE'' then st2\<lparr>has_response' := True\<rparr>
         else if k = ''RESOLVED'' then st2\<lparr>has_resolved' := True\<rparr>
         else st2)"
  using assms by (simp add: step_def)

lemma step_idle_tagged:
  assumes "idle st" "tagged l"
  shows "in_run (step fp n l st) n [l] \<and> blocks (step fp n l st) = blocks st"
proof -
  from assms(2) obtain k where k: "is_feedback_line l = Some k" by (auto simp: tagged_def)
  from assms(1) have i: "current_block st = None" by (simp add: idle_def)
  from assms(1) have c: "current_lines st = []" by (simp add: idle_def)
  from k show ?thesis
  proof (cases rule: carries_cases)
    case fb
    then show ?thesis
      by (simp add: step_open[OF k] i c in_run_def run_metadata_single Let_def)
  next
    case rs
    then show ?thesis
      by (simp add: step_open[OF k] i c in_run_def run_metadata_single Let_def)
  next
    case rd
    then show ?thesis
      by (simp add: step_open[OF k] i c in_run_def run_metadata_single Let_def)
  qed
qed

lemma step_idle_untagged:
  assumes "idle st" "\<not> tagged l"
  shows "step fp n l st = st"
  using assms by (simp add: step_def idle_def tagged_def)

lemma step_run_tagged:
  assumes "in_run st s run" "tagged l"
  shows "in_run (step fp n l st) s (run @ [l]) \<and> blocks (step fp n l st) = blocks st"
proof -
  from assms(2) obtain k where k: "is_feedback_line l = Some k" by (auto simp: tagged_def)
  from assms(1) have i: "current_block st = Some True" by (simp add: in_run_def)
  note r = assms(1)[unfolded in_run_def]
  from k show ?thesis
  proof (cases rule: carries_cases)
    case fb
    then show ?thesis using r
      by (simp add: step_open[OF k] i in_run_def run_metadata_snoc Let_def)
  next
    case rs
    then show ?thesis using r
      by (simp add: step_open[OF k] i in_run_def run_metadata_snoc Let_def)
  next
    case rd
    then show ?thesis using r
      by (simp add: step_open[OF k] i in_run_def run_metadata_snoc Let_def)
  qed
qed

lemma make_block_in_run:
  assumes "in_run st s run"
  shows "make_block fp s st = block_of_run fp (s, run)"
  using assms
  by (simp add: make_block_def block_of_run_def in_run_def derive_status_def run_status_def)

lemma step_run_untagged:
  assumes "in_run st s run" "\<not> tagged l"
  shows "idle (step fp n l st) \<and> blocks (step fp n l st) = blocks st @ [block_of_run fp (s, run)]"
  using assms make_block_in_run[OF assms(1), of fp]
  by (auto simp: step_def tagged_def idle_def in_run_def)

lemma finish_idle: "idle st \<Longrightarrow> finish fp st = blocks st"
  by (simp add: finish_def idle_def)

lemma finish_in_run: "in_run st s run \<Longrightarrow> finish fp st = blocks st @ [block_of_run fp (s, run)]"
  using make_block_in_run[of st s run fp] by (auto simp: finish_def in_run_def)

lemma scan_loop_runs:
  "(idle st \<longrightarrow>
      finish fp (scan_loop fp n ls st) = blocks st @ map (block_of_run fp) (tagged_runs n ls))
   \<and> (in_run st s run \<longrightarrow>
      finish fp (scan_loop fp n ls st) =
        blocks st @ block_of_run fp (s, run @ takeWhile tagged ls)
          # map (block_of_run fp)
              (tagged_runs (n + int (length (takeWhile tagged ls))) (dropWhile tagged ls)))"
proof (induction ls arbitrary: st n s run)
  case Nil
  show ?case by (simp add: finish_idle finish_in_run)
next
  case (Cons l ls)
  show ?case
  proof (cases "tagged l")
    case True
    have a: "idle st \<Longrightarrow> ?thesis"
    proof -
      assume i: "idle st"
      from step_idle_tagged[OF i True, of fp n]
      have r: "in_run (step fp n l st) n [l]" and b: "blocks (step fp n l st) = blocks st"
        by auto
      from Cons.IH[of "step fp n l st" "n + 1" n "[l]"] r b i True
      show ?thesis by (auto simp: idle_def in_run_def add.assoc)
    qed
    have c: "in_run st s run \<Longrightarrow> ?thesis"
    proof -
      assume i: "in_run st s run"
      from step_run_tagged[OF i True, of fp n]
      have r: "in_run (step fp n l st) s (run @ [l])" and b: "blocks (step fp n l st) = blocks st"
        by auto
      from Cons.IH[of "step fp n l st" "n + 1" s "run @ [l]"] r b i True
      show ?thesis by (auto simp: idle_def in_run_def add.assoc)
    qed
    show ?thesis using a c by (auto simp: idle_def in_run_def)
  next
    case False
    have a: "idle st \<Longrightarrow> ?thesis"
    proof -
      assume i: "idle st"
      from Cons.IH[of st "n + 1"] step_idle_untagged[OF i False, of fp n] i False
      show ?thesis by (auto simp: idle_def in_run_def)
    qed
    have c: "in_run st s run \<Longrightarrow> ?thesis"
    proof -
      assume i: "in_run st s run"
      from step_run_untagged[OF i False, of fp n]
      have r: "idle (step fp n l st)"
        and b: "blocks (step fp n l st) = blocks st @ [block_of_run fp (s, run)]"
        by auto
      from Cons.IH[of "step fp n l st" "n + 1"] r b i False
      show ?thesis by (auto simp: idle_def in_run_def)
    qed
    show ?thesis using a c by (auto simp: idle_def in_run_def)
  qed
qed

lemma parse_lines_runs:
  "parse_lines fp ls = map (block_of_run fp) (tagged_runs 1 ls)"
  using scan_loop_runs[of init_state fp 1 ls]
  by (simp add: parse_lines_def idle_def init_state_def)

subsection \<open>Runs are maximal, ordered and cover every tagged line\<close>

lemma tagged_runs_decomp:
  "(s, r) \<in> set (tagged_runs n ls) \<Longrightarrow>
     \<exists>pre post. ls = pre @ r @ post \<and> s = n + int (length pre) \<and> r \<noteq> []
        \<and> list_all tagged r
        \<and> (pre = [] \<or> \<not> tagged (last pre)) \<and> (post = [] \<or> \<not> tagged (hd post))"
proof (induction n ls rule: tagged_runs.induct)
  case (1 n)
  then show ?case by simp
next
  case (2 n l ls)
  let ?tw = "takeWhile tagged ls" and ?dw = "dropWhile tagged ls"
  show ?case
  proof (cases "tagged l")
    case False
    with 2 obtain pre post where p: "ls = pre @ r @ post" "s = n + 1 + int (length pre)"
        "r \<noteq> []" "list_all tagged r" "pre = [] \<or> \<not> tagged (last pre)"
        "post = [] \<or> \<not> tagged (hd post)"
      by auto
    have "l # ls = (l # pre) @ r @ post \<and> s = n + int (length (l # pre)) \<and> r \<noteq> []
        \<and> list_all tagged r \<and> (l # pre = [] \<or> \<not> tagged (last (l # pre)))
        \<and> (post = [] \<or> \<not> tagged (hd post))"
      using p False by auto
    then show ?thesis by blast
  next
    case True
    from 2(3) True consider (hd) "(s, r) = (n, l # ?tw)"
      | (tl) "(s, r) \<in> set (tagged_runs (n + 1 + int (length ?tw)) ?dw)"
      by auto
    then show ?thesis
    proof cases
      case hd
      have dw: "?dw = [] \<or> \<not> tagged (hd ?dw)"
        using hd_dropWhile[of tagged ls] by auto
      have tw: "list_all tagged ?tw"
        by (simp add: list_all_iff) (meson set_takeWhileD)
      have "l # ls = [] @ r @ ?dw \<and> s = n + int (length ([] :: string list)) \<and> r \<noteq> []
          \<and> list_all tagged r \<and> (([] :: string list) = [] \<or> \<not> tagged (last []))
          \<and> (?dw = [] \<or> \<not> tagged (hd ?dw))"
        using hd True tw dw by auto
      then show ?thesis by blast
    next
      case tl
      from 2(1)[OF True tl] obtain pre post where p: "?dw = pre @ r @ post"
          "s = n + 1 + int (length ?tw) + int (length pre)"
          "r \<noteq> []" "list_all tagged r" "pre = [] \<or> \<not> tagged (last pre)"
          "post = [] \<or> \<not> tagged (hd post)"
        by auto
      have ne: "pre \<noteq> []"
      proof
        assume e: "pre = []"
        with p(1,3) have "hd ?dw = hd r" "?dw \<noteq> []" by auto
        moreover have "tagged (hd r)" using p(3,4) by (cases r) auto
        ultimately show False using hd_dropWhile[of tagged ls] by auto
      qed
      have ls: "ls = ?tw @ pre @ r @ post"
        using takeWhile_dropWhile_id[of tagged ls] p(1) by simp
      have "l # ls = (l # ?tw @ pre) @ r @ post \<and> s = n + int (length (l # ?tw @ pre))
          \<and> r \<noteq> [] \<and> list_all tagged r
          \<and> (l # ?tw @ pre = [] \<or> \<not> tagged (last (l # ?tw @ pre)))
          \<and> (post = [] \<or> \<not> tagged (hd post))"
        using p ne ls by auto
      then show ?thesis by blast
    qed
  qed
qed

lemma tagged_runs_sorted:
  "sorted_wrt (\<lambda>a b. fst a + int (length (snd a)) < fst b) (tagged_runs n ls)"
proof (induction n ls rule: tagged_runs.induct)
  case (1 n)
  then show ?case by simp
next
  case (2 n l ls)
  show ?case
  proof (cases "tagged l")
    case False
    with 2 show ?thesis by simp
  next
    case True
    let ?tw = "takeWhile tagged ls" and ?dw = "dropWhile tagged ls"
    have "n + 1 + int (length ?tw) < s"
      if "(s, r) \<in> set (tagged_runs (n + 1 + int (length ?tw)) ?dw)" for s r
    proof -
      from tagged_runs_decomp[OF that] obtain pre post where p: "?dw = pre @ r @ post"
          "s = n + 1 + int (length ?tw) + int (length pre)" "r \<noteq> []" "list_all tagged r"
        by auto
      have "pre \<noteq> []"
      proof
        assume e: "pre = []"
        with p(1,3) have "hd ?dw = hd r" "?dw \<noteq> []" by auto
        moreover have "tagged (hd r)" using p(3,4) by (cases r) auto
        ultimately show False using hd_dropWhile[of tagged ls] by auto
      qed
      then show ?thesis using p(2) by (cases pre) auto
    qed
    then have "\<forall>x \<in> set (tagged_runs (n + 1 + int (length ?tw)) ?dw).
        n + int (length (l # ?tw)) < fst x"
      by (auto simp: add.assoc)
    with 2(1)[OF True] True show ?thesis by simp
  qed
qed

lemma tagged_runs_cover:
  "i < length ls \<Longrightarrow> tagged (ls ! i) \<Longrightarrow>
     \<exists>sr \<in> set (tagged_runs n ls). fst sr \<le> n + int i \<and> n + int i < fst sr + int (length (snd sr))"
proof (induction n ls arbitrary: i rule: tagged_runs.induct)
  case (1 n)
  then show ?case by simp
next
  case (2 n l ls)
  let ?tw = "takeWhile tagged ls" and ?dw = "dropWhile tagged ls"
  show ?case
  proof (cases "tagged l")
    case False
    with 2(3,4) obtain j where j: "i = Suc j" by (cases i) auto
    with 2(3,4) have "j < length ls" "tagged (ls ! j)" by auto
    from 2(2)[OF False this] obtain sr where "sr \<in> set (tagged_runs (n + 1) ls)"
        "fst sr \<le> n + 1 + int j" "n + 1 + int j < fst sr + int (length (snd sr))"
      by blast
    with j False show ?thesis by (intro bexI[of _ sr]) auto
  next
    case True
    show ?thesis
    proof (cases "i \<le> length ?tw")
      case True
      with \<open>tagged l\<close> show ?thesis by auto
    next
      case False
      define j where "j = i - 1 - length ?tw"
      have i: "i = 1 + length ?tw + j" using False by (simp add: j_def)
      have ls: "ls = ?tw @ ?dw" by simp
      have len: "length ls = length ?tw + length ?dw"
        by (metis ls length_append)
      have jl: "j < length ?dw" using 2(3) i len by simp
      have "(l # ls) ! i = ls ! (length ?tw + j)" using i by simp
      also have "\<dots> = ?dw ! j"
        by (metis ls nth_append_length_plus)
      finally have "tagged (?dw ! j)" using 2(4) by simp
      from 2(1)[OF True jl this] obtain sr
        where "sr \<in> set (tagged_runs (n + 1 + int (length ?tw)) ?dw)"
          "fst sr \<le> n + 1 + int (length ?tw) + int j"
          "n + 1 + int (length ?tw) + int j < fst sr + int (length (snd sr))"
        by blast
      with True i show ?thesis by (intro bexI[of _ sr]) auto
    qed
  qed
qed

lemma block_run_of_run:
  assumes "ls = pre @ r @ post" "r \<noteq> []"
  shows "block_run ls (block_of_run fp (1 + int (length pre), r)) = r"
  using assms by (simp add: block_run_def block_of_run_def)

lemma parse_lines_block:
  assumes "b \<in> set (parse_lines fp ls)"
  shows "\<exists>pre r post. ls = pre @ r @ post \<and> r \<noteq> [] \<and> list_all tagged r
           \<and> (pre = [] \<or> \<not> tagged (last pre)) \<and> (post = [] \<or> \<not> tagged (hd post))
           \<and> b = block_of_run fp (1 + int (length pre), r) \<and> block_run ls b = r"
proof -
  from assms obtain s r where sr: "(s, r) \<in> set (tagged_runs 1 ls)" "b = block_of_run fp (s, r)"
    by (auto simp: parse_lines_runs)
  from tagged_runs_decomp[OF sr(1)] obtain pre post where p: "ls = pre @ r @ post"
      "s = 1 + int (length pre)" "r \<noteq> []" "list_all tagged r"
      "pre = [] \<or> \<not> tagged (last pre)" "post = [] \<or> \<not> tagged (hd post)"
    by auto
  from block_run_of_run[OF p(1,3), of fp] sr(2) p show ?thesis by blast
qed

subsection \<open>Status of a block\<close>

lemma demo_parse: "parse_lines ''t.py'' demo_lines = [demo_block]"
  by code_simp

lemma demo_member: "demo_block \<in> set (parse_lines ''t.py'' demo_lines)"
  by (simp add: demo_parse)

lemma demo_run: "block_run demo_lines demo_block = tl demo_lines"
  by code_simp

lemma carries_image:
  "(\<exists>l \<in> set run. is_feedback_line l = Some k) = (Some k \<in> set (map is_feedback_line run))"
  by (auto intro: rev_image_eqI)

lemma parse_lines_status:
  assumes "b \<in> set (parse_lines fp lines)"
  shows "status b = run_status (block_run lines b)"
proof -
  from parse_lines_block[OF assms] obtain pre r post
    where "lines = pre @ r @ post" "b = block_of_run fp (1 + int (length pre), r)"
      "block_run lines b = r"
    by blast
  then show ?thesis by (simp add: block_of_run_def)
qed

text \<open>
  Claim C1. Every emitted block has status \<open>resolved\<close> if one of its lines carries a
  \<open>RESOLVED\<close> tag, else \<open>responded\<close> if one carries a \<open>RESPONSE\<close> tag, else \<open>open\<close>.
  The order of the tags plays no part: two blocks, of any two files, whose lines carry
  the same set of tags have the same status.
\<close>

theorem status_determined_by_tags:
  assumes "b \<in> set (parse_lines fp lines)"
  shows "status b =
           (if \<exists>l \<in> set (block_run lines b). is_feedback_line l = Some ''RESOLVED'' then ''resolved''
            else if \<exists>l \<in> set (block_run lines b). is_feedback_line l = Some ''RESPONSE''
                 then ''responded''
            else ''open'')
         \<and> (\<forall>fp' lines' b'. b' \<in> set (parse_lines fp' lines')
               \<and> set (map is_feedback_line (block_run lines' b'))
                   = set (map is_feedback_line (block_run lines b))
               \<longrightarrow> status b' = status b)"
proof -
  have a: "status c = (if Some ''RESOLVED'' \<in> set (map is_feedback_line (block_run ls c))
                       then ''resolved''
                       else if Some ''RESPONSE'' \<in> set (map is_feedback_line (block_run ls c))
                       then ''responded'' else ''open'')"
    if "c \<in> set (parse_lines f ls)" for c f ls
    using parse_lines_status[OF that] unfolding run_status_def carries_def carries_image .
  have "status b' = status b"
    if "b' \<in> set (parse_lines fp' lines')"
      "set (map is_feedback_line (block_run lines' b')) = set (map is_feedback_line (block_run lines b))"
    for fp' lines' b'
    using a[OF that(1)] a[OF assms] that(2) by simp
  moreover have "status b =
           (if \<exists>l \<in> set (block_run lines b). is_feedback_line l = Some ''RESOLVED'' then ''resolved''
            else if \<exists>l \<in> set (block_run lines b). is_feedback_line l = Some ''RESPONSE''
                 then ''responded''
            else ''open'')"
    using parse_lines_status[OF assms] by (simp add: run_status_def carries_def)
  ultimately show ?thesis by blast
qed

theorem status_determined_by_tags_witness:
  "demo_block \<in> set (parse_lines ''t.py'' demo_lines)
   \<and> (\<exists>l \<in> set (block_run demo_lines demo_block). is_feedback_line l = Some ''RESOLVED'')
   \<and> status demo_block = ''resolved''"
proof -
  have r: "\<exists>l \<in> set (block_run demo_lines demo_block). is_feedback_line l = Some ''RESOLVED''"
    by code_simp
  from status_determined_by_tags[OF demo_member] r
  have "status demo_block = ''resolved''" by simp
  with demo_member r show ?thesis by simp
qed

subsection \<open>Line numbers of a block\<close>

text \<open>
  Claim C3. For every emitted block the file splits as \<open>pre @ run @ post\<close>, where \<open>run\<close> is
  a maximal run of tagged lines (the line before it, if any, and the line after it, if
  any, are not tagged; \<open>post = []\<close> is the run that ends at the end of the file), the
  block's lines are those of \<open>run\<close>, \<open>line_start\<close> is the 1-based number of the first line
  of \<open>run\<close> and \<open>line_end\<close> that of its last line. Every tagged line of the file lies in
  an emitted block, so a run that the end of the file closes is emitted as well.
\<close>

theorem line_numbers_match_run:
  "(b \<in> set (parse_lines fp lines) \<longrightarrow>
      (\<exists>pre run post. lines = pre @ run @ post \<and> run \<noteq> [] \<and> list_all tagged run
         \<and> (pre = [] \<or> \<not> tagged (last pre)) \<and> (post = [] \<or> \<not> tagged (hd post))
         \<and> line_start b = int (length pre) + 1
         \<and> line_end b = int (length pre) + int (length run)
         \<and> feedback_lines b = map rstrip run))
   \<and> (i < length lines \<and> tagged (lines ! i) \<longrightarrow>
      (\<exists>b' \<in> set (parse_lines fp lines). line_start b' \<le> int i + 1 \<and> int i + 1 \<le> line_end b'))"
proof (intro conjI impI)
  assume "b \<in> set (parse_lines fp lines)"
  from parse_lines_block[OF this] obtain pre r post
    where p: "lines = pre @ r @ post" "r \<noteq> []" "list_all tagged r"
      "pre = [] \<or> \<not> tagged (last pre)" "post = [] \<or> \<not> tagged (hd post)"
      "b = block_of_run fp (1 + int (length pre), r)"
    by blast
  have "line_start b = int (length pre) + 1 \<and> line_end b = int (length pre) + int (length r)
        \<and> feedback_lines b = map rstrip r"
    using p(6) by (simp add: block_of_run_def)
  with p(1-5) show "\<exists>pre run post. lines = pre @ run @ post \<and> run \<noteq> [] \<and> list_all tagged run
         \<and> (pre = [] \<or> \<not> tagged (last pre)) \<and> (post = [] \<or> \<not> tagged (hd post))
         \<and> line_start b = int (length pre) + 1
         \<and> line_end b = int (length pre) + int (length run)
         \<and> feedback_lines b = map rstrip run"
    by blast
next
  assume a: "i < length lines \<and> tagged (lines ! i)"
  from tagged_runs_cover[of i lines 1] a obtain sr where sr: "sr \<in> set (tagged_runs 1 lines)"
      "fst sr \<le> 1 + int i" "1 + int i < fst sr + int (length (snd sr))"
    by blast
  have "block_of_run fp sr \<in> set (parse_lines fp lines)"
    using sr(1) by (simp add: parse_lines_runs)
  moreover have "line_start (block_of_run fp sr) \<le> int i + 1
      \<and> int i + 1 \<le> line_end (block_of_run fp sr)"
    using sr(2,3) by (simp add: block_of_run_def)
  ultimately show "\<exists>b' \<in> set (parse_lines fp lines).
      line_start b' \<le> int i + 1 \<and> int i + 1 \<le> line_end b'"
    by blast
qed

theorem line_numbers_match_run_witness:
  "demo_block \<in> set (parse_lines ''t.py'' demo_lines)
   \<and> 3 < length demo_lines \<and> tagged (demo_lines ! 3)
   \<and> (\<exists>pre run post. demo_lines = pre @ run @ post
         \<and> line_start demo_block = int (length pre) + 1
         \<and> line_end demo_block = int (length pre) + int (length run))
   \<and> (\<exists>b' \<in> set (parse_lines ''t.py'' demo_lines). line_start b' \<le> 4 \<and> 4 \<le> line_end b')"
proof -
  have h: "3 < length demo_lines \<and> tagged (demo_lines ! 3)" by code_simp
  from line_numbers_match_run[of demo_block "''t.py''" demo_lines 3] demo_member h
  show ?thesis by auto
qed

end
